theory Spec2Isabelle
  imports Main
begin

section \<open>The submission queue of setup-drivers.js: nonce bookkeeping\<close>

text \<open>
  The class \<^verbatim>\<open>TxQueue\<close> (lines 86-141) owns one mutable object, \<^verbatim>\<open>nonceTracker\<close>,
  a dictionary from signer address to the next nonce to hand out. A nonce is an
  account index of the chain (\<^verbatim>\<open>accountNextIndex(address).toNumber()\<close>, an unsigned
  32-bit index converted to a JavaScript number), so nonces are natural numbers; the
  tracker only ever stores such a number or such a number plus one.

  The remote node is not part of the program: what \<^verbatim>\<open>api.rpc.system.accountNextIndex\<close>
  answers is a parameter (\<open>byRpc\<close>) of every definition that awaits it.
\<close>

type_synonym address = string

record txqueue =
  nonceTracker :: "address \<rightharpoonup> nat"

text \<open>The constructor (lines 87-90): \<^verbatim>\<open>this.nonceTracker = {}\<close>.\<close>

definition new_TxQueue :: txqueue where
  "new_TxQueue = \<lparr>nonceTracker = Map.empty\<rparr>"

text \<open>
  Line 92, \<^verbatim>\<open>this.nonceTracker[address] || 0\<close>: a missing entry (\<^verbatim>\<open>undefined\<close>) and
  the entry \<open>0\<close> are both falsy and both give \<open>0\<close>; any other entry gives itself.
\<close>

definition cached :: "txqueue \<Rightarrow> address \<Rightarrow> nat" where
  "cached q address =
     (case nonceTracker q address of
        None \<Rightarrow> 0
      | Some n \<Rightarrow> (if n = 0 then 0 else n))"

text \<open>
  \<^verbatim>\<open>nextNonce\<close> (lines 91-95) runs in two pieces, separated by the \<^verbatim>\<open>await\<close> of the
  remote query on line 93: the piece before it reads the cache, the piece after it
  takes the maximum with the awaited answer. Neither piece writes to the tracker.
\<close>

definition nextNonce_begin :: "txqueue \<Rightarrow> address \<Rightarrow> nat" where
  "nextNonce_begin q address = cached q address"

definition nextNonce_end :: "nat \<Rightarrow> nat \<Rightarrow> nat" where
  "nextNonce_end byCache byRpc = max byCache byRpc"

text \<open>
  One whole call of \<^verbatim>\<open>nextNonce\<close> with nothing else running in between, in state-passing
  style: the value returned and the queue afterwards.
\<close>

definition nextNonce :: "txqueue \<Rightarrow> address \<Rightarrow> nat \<Rightarrow> nat \<times> txqueue" where
  "nextNonce q address byRpc =
     (let byCache = nextNonce_begin q address
      in (nextNonce_end byCache byRpc, q))"

text \<open>
  \<^verbatim>\<open>markNonceFailed\<close> (lines 96-103). The guard \<^verbatim>\<open>!this.nonceTracker[address]\<close> returns
  early for a missing entry and for the entry \<open>0\<close>.
\<close>

definition markNonceFailed :: "txqueue \<Rightarrow> address \<Rightarrow> nat \<Rightarrow> txqueue" where
  "markNonceFailed q address nonce =
     (case nonceTracker q address of
        None \<Rightarrow> q
      | Some c \<Rightarrow>
          if c = 0 then q
          else if nonce < c then q\<lparr>nonceTracker := (nonceTracker q)(address \<mapsto> nonce)\<rparr>
          else q)"

text \<open>Line 107 of \<^verbatim>\<open>submit\<close>: \<^verbatim>\<open>this.nonceTracker[address] = nonce + 1\<close>.\<close>

definition reserve :: "txqueue \<Rightarrow> address \<Rightarrow> nat \<Rightarrow> txqueue" where
  "reserve q address nonce = q\<lparr>nonceTracker := (nonceTracker q)(address \<mapsto> nonce + 1)\<rparr>"

text \<open>
  Lines 105-107 of \<^verbatim>\<open>submit\<close> run to the end with no other task in between: the nonce
  allocated and the queue after the reservation.
\<close>

definition submit_allocate :: "txqueue \<Rightarrow> address \<Rightarrow> nat \<Rightarrow> nat \<times> txqueue" where
  "submit_allocate q address byRpc =
     (case nextNonce q address byRpc of
        (nonce, q') \<Rightarrow> (nonce, reserve q' address nonce))"

subsection \<open>Calls that do not overlap\<close>

text \<open>
  A run of calls on one queue in which every call has finished its work on the tracker
  before the next one starts, each with what the remote answers to its query:
  a call of \<^verbatim>\<open>nextNonce\<close>, the allocation of a call of \<^verbatim>\<open>submit\<close> (lines 105-107), and
  the report that the operation of an address with a nonce is invalid, which calls
  \<^verbatim>\<open>markNonceFailed\<close> (line 135).
\<close>

datatype call =
    NextNonceCall address nat     \<comment> \<open>\<^verbatim>\<open>nextNonce(address)\<close>, the remote answers byRpc\<close>
  | SubmitCall address nat        \<comment> \<open>lines 105-107 of \<^verbatim>\<open>submit\<close>, the remote answers byRpc\<close>
  | InvalidReport address nat     \<comment> \<open>\<^verbatim>\<open>markNonceFailed(address, nonce)\<close>\<close>

text \<open>
  The values that the calls of \<^verbatim>\<open>nextNonce\<close> for one address return in such a run, in
  the order of the calls; those made by \<^verbatim>\<open>submit\<close> on line 106 are among them.
\<close>

fun returned_for :: "txqueue \<Rightarrow> address \<Rightarrow> call list \<Rightarrow> nat list" where
  "returned_for q a [] = []"
| "returned_for q a (NextNonceCall b byRpc # cs) =
     (case nextNonce q b byRpc of
        (n, q') \<Rightarrow> (if b = a then [n] else []) @ returned_for q' a cs)"
| "returned_for q a (SubmitCall b byRpc # cs) =
     (case submit_allocate q b byRpc of
        (n, q') \<Rightarrow> (if b = a then [n] else []) @ returned_for q' a cs)"
| "returned_for q a (InvalidReport b nonce # cs) =
     returned_for (markNonceFailed q b nonce) a cs"

text \<open>What the remote answered to the queries for one address, in the order of the calls.\<close>

fun answers_for :: "address \<Rightarrow> call list \<Rightarrow> nat list" where
  "answers_for a [] = []"
| "answers_for a (NextNonceCall b byRpc # cs) =
     (if b = a then [byRpc] else []) @ answers_for a cs"
| "answers_for a (SubmitCall b byRpc # cs) =
     (if b = a then [byRpc] else []) @ answers_for a cs"
| "answers_for a (InvalidReport b nonce # cs) = answers_for a cs"

text \<open>The nonces reported invalid for one address.\<close>

fun rollbacks_for :: "address \<Rightarrow> call list \<Rightarrow> nat list" where
  "rollbacks_for a [] = []"
| "rollbacks_for a (NextNonceCall b byRpc # cs) = rollbacks_for a cs"
| "rollbacks_for a (SubmitCall b byRpc # cs) = rollbacks_for a cs"
| "rollbacks_for a (InvalidReport b nonce # cs) =
     (if b = a then [nonce] else []) @ rollbacks_for a cs"

subsection \<open>Interleaved calls of \<^verbatim>\<open>submit\<close>\<close>

text \<open>
  JavaScript runs one task at a time and a task gives way only at an \<^verbatim>\<open>await\<close>. A call
  \<^verbatim>\<open>submit(tx, signer)\<close> runs line 105, enters \<^verbatim>\<open>nextNonce\<close>, reads the cache on line
  92, issues the remote query on line 93 and is suspended there. When the answer
  arrives, \<^verbatim>\<open>nextNonce\<close> is resumed and line 94 computes the value it returns. The call of
  \<^verbatim>\<open>submit\<close> awaits that value on line 106, so it is resumed in a later step, and only
  then line 107 writes the reservation. A caller that does not await the promise of
  \<^verbatim>\<open>submit\<close> can start further calls at each of these points.

  A call started remembers its address, the \<open>byCache\<close> it read and how far it has come.
  The scheduler state is the shared queue, the calls in the order they were started
  (the first is number 0), and the log of the nonces allocated so far.
\<close>

datatype stage =
    AwaitingAnswer     \<comment> \<open>suspended on line 93\<close>
  | HasNonce nat       \<comment> \<open>line 94 has returned this value; suspended on line 106\<close>
  | Reserved           \<comment> \<open>line 107 has run\<close>

record task =
  task_address :: address
  task_byCache :: nat
  task_stage :: stage

record sched =
  sched_queue :: txqueue
  tasks :: "task list"
  allocated :: "(address \<times> nat) list"

datatype event =
    CallSubmit address     \<comment> \<open>a new call of submit for this signer address starts\<close>
  | RpcAnswer nat nat      \<comment> \<open>the remote answers the query of call number i with byRpc\<close>
  | Resume nat             \<comment> \<open>call number i is resumed after line 106\<close>

definition sched_init :: "txqueue \<Rightarrow> sched" where
  "sched_init q = \<lparr>sched_queue = q, tasks = [], allocated = []\<rparr>"

fun step :: "sched \<Rightarrow> event \<Rightarrow> sched" where
  "step s (CallSubmit address) =
     s\<lparr>tasks := tasks s @
         [\<lparr>task_address = address,
           task_byCache = nextNonce_begin (sched_queue s) address,
           task_stage = AwaitingAnswer\<rparr>]\<rparr>"
| "step s (RpcAnswer i byRpc) =
     (if i < length (tasks s) then
        (let t = tasks s ! i
         in case task_stage t of
              AwaitingAnswer \<Rightarrow>
                s\<lparr>tasks := (tasks s)
                    [i := t\<lparr>task_stage := HasNonce (nextNonce_end (task_byCache t) byRpc)\<rparr>]\<rparr>
            | HasNonce n \<Rightarrow> s
            | Reserved \<Rightarrow> s)
      else s)"
| "step s (Resume i) =
     (if i < length (tasks s) then
        (let t = tasks s ! i
         in case task_stage t of
              AwaitingAnswer \<Rightarrow> s
            | HasNonce nonce \<Rightarrow>
                s\<lparr>sched_queue := reserve (sched_queue s) (task_address t) nonce,
                  tasks := (tasks s)[i := t\<lparr>task_stage := Reserved\<rparr>],
                  allocated := allocated s @ [(task_address t, nonce)]\<rparr>
            | Reserved \<Rightarrow> s)
      else s)"

definition run :: "sched \<Rightarrow> event list \<Rightarrow> sched" where
  "run s evs = foldl step s evs"

section \<open>The submission queue: the status subscription of \<^verbatim>\<open>submit\<close>\<close>

text \<open>
  After the reservation, \<^verbatim>\<open>submit\<close> (lines 108-139) returns a promise and hands a
  callback to \<^verbatim>\<open>signAndSend\<close>; the library calls it once for every status update of the
  operation, until \<^verbatim>\<open>unsub()\<close> is called. The model covers the executions in which
  \<^verbatim>\<open>signAndSend\<close> establishes the subscription.

  A status update carries a status, of which the callback distinguishes
  \<^verbatim>\<open>isInBlock\<close>, \<^verbatim>\<open>isFinalized\<close> and \<^verbatim>\<open>isInvalid\<close> (every other status, such as ready or
  broadcast, falls through all three tests), and the list of events. An event has a
  section, a method and a list of data; a datum is represented by its human-readable
  rendering, which is what \<^verbatim>\<open>toHuman()\<close> gives.
\<close>

type_synonym hash = string
type_synonym datum = string

record chain_event =
  ev_section :: string
  ev_method :: string
  ev_data :: "datum list"

datatype status =
    IsInBlock hash       \<comment> \<open>the argument is \<^verbatim>\<open>status.asInBlock\<close>\<close>
  | IsFinalized hash     \<comment> \<open>the argument is \<^verbatim>\<open>status.asFinalized\<close>, which the callback never reads\<close>
  | IsInvalid
  | OtherStatus

record result =
  res_status :: status
  res_events :: "chain_event list"

text \<open>
  The value a promise is resolved with has the two fields \<^verbatim>\<open>hash\<close> and \<^verbatim>\<open>events\<close>; the
  variable \<^verbatim>\<open>hash\<close> of line 108 is \<^verbatim>\<open>undefined\<close> (\<open>None\<close>) until line 126 assigns it.
  A promise is rejected with the rendering of a failure event's first datum (line 116)
  or with the string \<^verbatim>\<open>'Invalid transaction'\<close> (line 136).
\<close>

record outcome =
  out_hash :: "hash option"
  out_events :: "chain_event list"

datatype reason = FailurePayload datum | InvalidTransaction

datatype promise = Pending | Resolved outcome | Rejected reason

text \<open>
  What one call of \<^verbatim>\<open>submit\<close> can change: the shared queue, its promise, whether
  \<^verbatim>\<open>unsub()\<close> has been called, and its variable \<^verbatim>\<open>hash\<close>.
\<close>

record submission =
  queue :: txqueue
  promise :: promise
  unsubscribed :: bool
  hash :: "hash option"

text \<open>Only the first \<^verbatim>\<open>resolve\<close> or \<^verbatim>\<open>reject\<close> settles a promise; later ones do nothing.\<close>

definition resolve :: "outcome \<Rightarrow> submission \<Rightarrow> submission" where
  "resolve out s = (if promise s = Pending then s\<lparr>promise := Resolved out\<rparr> else s)"

definition reject :: "reason \<Rightarrow> submission \<Rightarrow> submission" where
  "reject r s = (if promise s = Pending then s\<lparr>promise := Rejected r\<rparr> else s)"

definition unsub :: "submission \<Rightarrow> submission" where
  "unsub s = s\<lparr>unsubscribed := True\<rparr>"

text \<open>
  A piece of code either runs to its end or is left by an uncaught exception; the state
  reached is kept in both cases.
\<close>

datatype 'a completion = Normal 'a | Thrown 'a

fun state_of :: "'a completion \<Rightarrow> 'a" where
  "state_of (Normal s) = s"
| "state_of (Thrown s) = s"

definition is_ExtrinsicFailed :: "chain_event \<Rightarrow> bool" where
  "is_ExtrinsicFailed e = (ev_section e = ''system'' \<and> ev_method e = ''ExtrinsicFailed'')"

text \<open>
  The loop of lines 112-118 over \<^verbatim>\<open>result.events\<close>. It has no \<^verbatim>\<open>break\<close> and no
  \<^verbatim>\<open>return\<close>: after a failure event it goes on with the next event. On a failure event
  line 115 calls \<^verbatim>\<open>unsub()\<close>, then line 116 evaluates \<^verbatim>\<open>data[0].toHuman()\<close>, which throws
  a TypeError when the event has no data (\<^verbatim>\<open>data[0]\<close> is \<^verbatim>\<open>undefined\<close>), and rejects.
\<close>

fun scan_events :: "chain_event list \<Rightarrow> submission \<Rightarrow> submission completion" where
  "scan_events [] s = Normal s"
| "scan_events (e # es) s =
     (if is_ExtrinsicFailed e then
        (case ev_data e of
           [] \<Rightarrow> Thrown (unsub s)
         | d # ds \<Rightarrow> scan_events es (reject (FailurePayload d) (unsub s)))
      else scan_events es s)"

text \<open>
  The callback of lines 110-138, for the call \<^verbatim>\<open>submit(txBuilder, signer,
  waitForFinalization)\<close> whose signer has the given address and which allocated the
  given nonce.
\<close>

definition callback ::
  "bool \<Rightarrow> address \<Rightarrow> nat \<Rightarrow> result \<Rightarrow> submission \<Rightarrow> submission completion" where
  "callback waitForFinalization address nonce result s =
     (case res_status result of
        IsInBlock h \<Rightarrow>
          (case scan_events (res_events result) s of
             Thrown s1 \<Rightarrow> Thrown s1
           | Normal s1 \<Rightarrow>
               if \<not> waitForFinalization then
                 Normal (resolve \<lparr>out_hash = Some h, out_events = res_events result\<rparr> (unsub s1))
               else Normal (s1\<lparr>hash := Some h\<rparr>))
      | IsFinalized h \<Rightarrow>
          Normal (resolve \<lparr>out_hash = hash s, out_events = res_events result\<rparr> s)
      | IsInvalid \<Rightarrow>
          (let s1 = unsub s;
               s2 = s1\<lparr>queue := markNonceFailed (queue s1) address nonce\<rparr>
           in Normal (reject InvalidTransaction s2))
      | OtherStatus \<Rightarrow> Normal s)"

text \<open>
  The library delivers the status updates one after the other and stops delivering once
  \<^verbatim>\<open>unsub()\<close> has been called.
\<close>

fun deliver :: "bool \<Rightarrow> address \<Rightarrow> nat \<Rightarrow> result list \<Rightarrow> submission \<Rightarrow> submission" where
  "deliver w address nonce [] s = s"
| "deliver w address nonce (r # rs) s =
     (if unsubscribed s then s
      else deliver w address nonce rs (state_of (callback w address nonce r s)))"

text \<open>
  A whole call of \<^verbatim>\<open>submit\<close> that no other task interleaves with: the allocation of
  lines 105-107 with the remote's answer \<open>byRpc\<close>, a fresh pending promise, and the
  status updates that arrive.
\<close>

definition submit_begin :: "txqueue \<Rightarrow> address \<Rightarrow> nat \<Rightarrow> nat \<times> submission" where
  "submit_begin q address byRpc =
     (case submit_allocate q address byRpc of
        (nonce, q') \<Rightarrow>
          (nonce, \<lparr>queue = q', promise = Pending, unsubscribed = False, hash = None\<rparr>))"

definition submit :: "txqueue \<Rightarrow> address \<Rightarrow> bool \<Rightarrow> nat \<Rightarrow> result list \<Rightarrow> submission" where
  "submit q address waitForFinalization byRpc updates =
     (case submit_begin q address byRpc of
        (nonce, s) \<Rightarrow> deliver waitForFinalization address nonce updates s)"

text \<open>
  The block of the last in-block update in a list of status updates, or \<open>h0\<close> when the
  list has none.
\<close>

fun last_in_block :: "result list \<Rightarrow> hash option \<Rightarrow> hash option" where
  "last_in_block [] h0 = h0"
| "last_in_block (r # rs) h0 =
     last_in_block rs (case res_status r of IsInBlock h \<Rightarrow> Some h | _ \<Rightarrow> h0)"

section \<open>The condition poller\<close>

text \<open>
  \<^verbatim>\<open>checkUntil\<close> (lines 149-161) and \<^verbatim>\<open>checkUntilEq\<close> (lines 163-181) read the clock
  (\<^verbatim>\<open>new Date().getTime()\<close>, milliseconds), await the caller's function and await a
  timer. The clock is the state that is passed along, and it does not run backwards.
  The caller's function is given by what it answers when it is invoked at a time and by
  how long its promise takes to be fulfilled: \<open>async_fn t = (answer, delay)\<close>. A timer
  (\<^verbatim>\<open>setTimeout\<close>, lines 143-147) fires at or after the time asked for: \<open>late t\<close> is how
  late the timer set at time \<open>t\<close> fires.
\<close>

type_synonym time = int

datatype error = Timeout     \<comment> \<open>\<^verbatim>\<open>new Error('timeout')\<close>\<close>

definition sleep :: "(time \<Rightarrow> nat) \<Rightarrow> int \<Rightarrow> time \<Rightarrow> time" where
  "sleep late t now = now + t + int (late now)"

text \<open>
  The loop of \<^verbatim>\<open>checkUntil\<close>, entered at time \<open>now\<close> with \<open>t0\<close> read on line 150. Every
  round that goes on moves the clock by at least 100 while the elapsed time is below the
  timeout, so the loop ends.
\<close>

function checkUntil_loop ::
  "(time \<Rightarrow> bool \<times> nat) \<Rightarrow> (time \<Rightarrow> nat) \<Rightarrow> int \<Rightarrow> time \<Rightarrow> time \<Rightarrow> error + unit" where
  "checkUntil_loop async_fn late timeout t0 now =
     (case async_fn now of
        (answer, delay) \<Rightarrow>
          (let t = now + int delay
           in if answer then Inr ()
              else if t - t0 \<ge> timeout then Inl Timeout
              else checkUntil_loop async_fn late timeout t0 (sleep late 100 t)))"
  by pat_completeness auto
termination
  by (relation "measure (\<lambda>(async_fn, late, timeout, t0, now). nat (t0 + timeout - now))")
    (auto simp: sleep_def)

definition checkUntil ::
  "(time \<Rightarrow> bool \<times> nat) \<Rightarrow> (time \<Rightarrow> nat) \<Rightarrow> int \<Rightarrow> time \<Rightarrow> error + unit" where
  "checkUntil async_fn late timeout now = checkUntil_loop async_fn late timeout now now"

text \<open>
  \<^verbatim>\<open>checkUntilEq\<close> also writes to the console: the log is the list of the pairs
  (current, expected) printed on line 172. \<^verbatim>\<open>lastActual\<close> starts as \<^verbatim>\<open>undefined\<close>
  (\<open>None\<close>). The values compared are of one primitive type, as at the call site on
  lines 41-47 (two numbers), where \<^verbatim>\<open>==\<close> is equality and no value is \<^verbatim>\<open>undefined\<close>.
\<close>

function checkUntilEq_loop ::
  "(time \<Rightarrow> 'a \<times> nat) \<Rightarrow> (time \<Rightarrow> nat) \<Rightarrow> 'a \<Rightarrow> int \<Rightarrow> bool \<Rightarrow> time \<Rightarrow> 'a option
     \<Rightarrow> ('a \<times> 'a) list \<Rightarrow> time \<Rightarrow> (error + unit) \<times> ('a \<times> 'a) list" where
  "checkUntilEq_loop async_fn late expected timeout verbose t0 lastActual log now =
     (case async_fn now of
        (actual, delay) \<Rightarrow>
          if actual = expected then (Inr (), log)
          else
            (let printing = (Some actual \<noteq> lastActual \<and> verbose);
                 log' = (if printing then log @ [(actual, expected)] else log);
                 lastActual' = (if printing then Some actual else lastActual);
                 t = now + int delay
             in if t - t0 \<ge> timeout then (Inl Timeout, log')
                else checkUntilEq_loop async_fn late expected timeout verbose t0
                       lastActual' log' (sleep late 100 t)))"
  by pat_completeness auto
termination
  by (relation "measure (\<lambda>(async_fn, late, expected, timeout, verbose, t0, lastActual, log, now).
        nat (t0 + timeout - now))")
    (auto simp: sleep_def)

definition checkUntilEq ::
  "(time \<Rightarrow> 'a \<times> nat) \<Rightarrow> (time \<Rightarrow> nat) \<Rightarrow> 'a \<Rightarrow> int \<Rightarrow> bool \<Rightarrow> time
     \<Rightarrow> (error + unit) \<times> ('a \<times> 'a) list" where
  "checkUntilEq async_fn late expected timeout verbose now =
     checkUntilEq_loop async_fn late expected timeout verbose now None [] now"

declare checkUntil_loop.simps [simp del] checkUntilEq_loop.simps [simp del]

text \<open>
  The times of the polls of a call started at \<open>t0\<close>, as the loop makes them for as long
  as it goes on: poll number 0 starts at \<open>t0\<close>, a poll ends when the caller's function
  has answered, and the next poll starts when the timer set at that moment fires.
\<close>

fun poll_start :: "(time \<Rightarrow> 'a \<times> nat) \<Rightarrow> (time \<Rightarrow> nat) \<Rightarrow> time \<Rightarrow> nat \<Rightarrow> time" where
  "poll_start async_fn late t0 0 = t0"
| "poll_start async_fn late t0 (Suc k) =
     sleep late 100
       (poll_start async_fn late t0 k + int (snd (async_fn (poll_start async_fn late t0 k))))"

definition poll_end :: "(time \<Rightarrow> 'a \<times> nat) \<Rightarrow> (time \<Rightarrow> nat) \<Rightarrow> time \<Rightarrow> nat \<Rightarrow> time" where
  "poll_end async_fn late t0 k =
     poll_start async_fn late t0 k + int (snd (async_fn (poll_start async_fn late t0 k)))"

text \<open>
  Two kinds of caller's function. \<open>instant p\<close> reads a condition \<open>p\<close> of the remote
  state at the time it is invoked and answers at once. \<open>delayed p d\<close> reads the
  condition when it is invoked and answers \<open>d\<close> milliseconds later. \<open>flips_at d\<close> is
  the condition that is false before time \<open>d\<close> and true from \<open>d\<close> on. Two kinds of
  timer: \<open>on_time\<close> fires exactly when asked, \<open>late_by l\<close> always \<open>l\<close> milliseconds late.
\<close>

definition instant :: "(time \<Rightarrow> bool) \<Rightarrow> time \<Rightarrow> bool \<times> nat" where
  "instant p t = (p t, 0)"

definition delayed :: "(time \<Rightarrow> bool) \<Rightarrow> nat \<Rightarrow> time \<Rightarrow> bool \<times> nat" where
  "delayed p d t = (p t, d)"

definition flips_at :: "time \<Rightarrow> time \<Rightarrow> bool" where
  "flips_at d t = (d \<le> t)"

definition on_time :: "time \<Rightarrow> nat" where
  "on_time t = 0"

definition late_by :: "nat \<Rightarrow> time \<Rightarrow> nat" where
  "late_by l t = l"

text \<open>A caller's function that always answers the value \<open>v\<close>, after \<open>d\<close> milliseconds.\<close>

definition answers :: "'a \<Rightarrow> nat \<Rightarrow> time \<Rightarrow> 'a \<times> nat" where
  "answers v d t = (v, d)"

section \<open>Facts about the nonce bookkeeping\<close>

lemma cached_eq: "cached q a = (case nonceTracker q a of None \<Rightarrow> 0 | Some n \<Rightarrow> n)"
  by (simp add: cached_def split: option.splits)

lemma cached_reserve: "cached (reserve q a n) a = n + 1"
  by (simp add: cached_eq reserve_def)

lemma cached_reserve_other: "b \<noteq> a \<Longrightarrow> cached (reserve q a n) b = cached q b"
  by (simp add: cached_eq reserve_def)

lemma cached_markNonceFailed:
  "cached (markNonceFailed q a n) a = (if n < cached q a then n else cached q a)"
  by (auto simp: cached_eq markNonceFailed_def split: option.splits)

lemma cached_markNonceFailed_other:
  "b \<noteq> a \<Longrightarrow> cached (markNonceFailed q a n) b = cached q b"
  by (auto simp: cached_eq markNonceFailed_def split: option.splits)

text \<open>
  The rollback by itself: the cached value becomes the failed nonce when it was
  strictly ahead of it, the queue is untouched otherwise, and the cached value never
  goes up.
\<close>

lemma markNonceFailed_rollback:
  "cached (markNonceFailed q a n) a = (if n < cached q a then n else cached q a)
   \<and> cached (markNonceFailed q a n) a \<le> cached q a
   \<and> (\<not> n < cached q a \<longrightarrow> markNonceFailed q a n = q)"
  by (auto simp: cached_eq markNonceFailed_def split: option.splits)

lemma fst_nextNonce: "fst (nextNonce q a r) = max (cached q a) r"
  by (simp add: nextNonce_def nextNonce_begin_def nextNonce_end_def)

lemma snd_nextNonce: "snd (nextNonce q a r) = q"
  by (simp add: nextNonce_def)

lemma submit_allocate_fst: "fst (submit_allocate q a r) = max (cached q a) r"
  by (simp add: submit_allocate_def nextNonce_def nextNonce_begin_def nextNonce_end_def)

lemma submit_allocate_cached:
  "cached (snd (submit_allocate q a r)) a = max (cached q a) r + 1"
  by (simp add: submit_allocate_def nextNonce_def nextNonce_begin_def nextNonce_end_def
      cached_reserve)

lemma submit_allocate_cached_other:
  "b \<noteq> a \<Longrightarrow> cached (snd (submit_allocate q a r)) b = cached q b"
  by (simp add: submit_allocate_def nextNonce_def cached_reserve_other)

lemma submit_allocate_cached_mono:
  "cached q b \<le> cached (snd (submit_allocate q a r)) b"
  by (cases "b = a") (simp_all add: submit_allocate_cached submit_allocate_cached_other)

lemma returned_for_NextNonceCall:
  "returned_for q a (NextNonceCall b r # cs) =
     (if b = a then [max (cached q b) r] else []) @ returned_for q a cs"
  by (simp add: nextNonce_def nextNonce_begin_def nextNonce_end_def)

lemma returned_for_SubmitCall:
  "returned_for q a (SubmitCall b r # cs) =
     (if b = a then [max (cached q b) r] else []) @ returned_for (snd (submit_allocate q b r)) a cs"
  by (cases "submit_allocate q b r") (use submit_allocate_fst [of q b r] in auto)

lemmas returned_for_Cons =
  returned_for_NextNonceCall returned_for_SubmitCall returned_for.simps(4)

text \<open>
  Calls of \<^verbatim>\<open>submit\<close> that do not overlap: when the first has reserved before the second
  starts and the remote's index is not ahead of the cache, the second is allocated the
  next nonce.
\<close>

lemma submit_allocate_consecutive:
  "r' \<le> cached (snd (submit_allocate q a r)) a \<Longrightarrow>
   fst (submit_allocate (snd (submit_allocate q a r)) a r') = fst (submit_allocate q a r) + 1"
  by (simp add: submit_allocate_fst submit_allocate_cached)

text \<open>
  A call of \<^verbatim>\<open>submit\<close> that is answered before the next one starts goes through the
  scheduler exactly as \<open>submit_allocate\<close> says.
\<close>

lemma run_sequential:
  "tasks s = [] \<Longrightarrow>
   sched_queue (run s [CallSubmit a, RpcAnswer 0 r, Resume 0])
     = snd (submit_allocate (sched_queue s) a r)
   \<and> allocated (run s [CallSubmit a, RpcAnswer 0 r, Resume 0])
     = allocated s @ [(a, fst (submit_allocate (sched_queue s) a r))]"
  by (simp add: run_def submit_allocate_def nextNonce_def Let_def)

subsection \<open>Facts about calls that do not overlap\<close>

text \<open>Without a rollback for the address, no value returned is below the cache at the start.\<close>

lemma returned_for_above_cache:
  "rollbacks_for a cs = [] \<Longrightarrow> c \<le> cached q a \<Longrightarrow> \<forall>y \<in> set (returned_for q a cs). c \<le> y"
proof (induction cs arbitrary: q)
  case Nil
  then show ?case by simp
next
  case (Cons x cs)
  show ?case
  proof (cases x)
    case (NextNonceCall b r)
    have "\<forall>y \<in> set (returned_for q a cs). c \<le> y"
      using Cons NextNonceCall by simp
    moreover have "c \<le> max (cached q a) r"
      using Cons.prems(2) by (simp add: le_max_iff_disj)
    ultimately show ?thesis
      using NextNonceCall by (auto simp: returned_for_Cons simp del: returned_for.simps)
  next
    case (SubmitCall b r)
    have "c \<le> cached (snd (submit_allocate q b r)) a"
      using Cons.prems(2) submit_allocate_cached_mono [of q a b r] by simp
    then have "\<forall>y \<in> set (returned_for (snd (submit_allocate q b r)) a cs). c \<le> y"
      using Cons SubmitCall by simp
    moreover have "c \<le> max (cached q a) r"
      using Cons.prems(2) by (simp add: le_max_iff_disj)
    ultimately show ?thesis
      using SubmitCall by (auto simp: returned_for_Cons simp del: returned_for.simps)
  next
    case (InvalidReport b n)
    then have ba: "b \<noteq> a"
      using Cons.prems(1) by (auto split: if_splits)
    then have "c \<le> cached (markNonceFailed q b n) a"
      using Cons.prems(2) by (simp add: cached_markNonceFailed_other)
    then show ?thesis
      using Cons InvalidReport ba by simp
  qed
qed

text \<open>No value returned is below the least of the remote's answers.\<close>

lemma returned_for_above_answers:
  "\<forall>r \<in> set (answers_for a cs). c \<le> r \<Longrightarrow> \<forall>y \<in> set (returned_for q a cs). c \<le> y"
proof (induction cs arbitrary: q)
  case Nil
  then show ?case by simp
next
  case (Cons x cs)
  show ?case
  proof (cases x)
    case (NextNonceCall b r)
    have "\<forall>y \<in> set (returned_for q a cs). c \<le> y"
      using Cons NextNonceCall by simp
    moreover have "b = a \<Longrightarrow> c \<le> max (cached q a) r"
      using Cons.prems NextNonceCall by (simp add: le_max_iff_disj)
    ultimately show ?thesis
      using NextNonceCall by (auto simp: returned_for_Cons simp del: returned_for.simps)
  next
    case (SubmitCall b r)
    have "\<forall>y \<in> set (returned_for (snd (submit_allocate q b r)) a cs). c \<le> y"
      using Cons SubmitCall by simp
    moreover have "b = a \<Longrightarrow> c \<le> max (cached q a) r"
      using Cons.prems SubmitCall by (simp add: le_max_iff_disj)
    ultimately show ?thesis
      using SubmitCall by (auto simp: returned_for_Cons simp del: returned_for.simps)
  next
    case (InvalidReport b n)
    then show ?thesis
      using Cons by simp
  qed
qed

lemma returned_for_sorted:
  "rollbacks_for a cs = [] \<Longrightarrow> sorted (answers_for a cs) \<Longrightarrow> sorted (returned_for q a cs)"
proof (induction cs arbitrary: q)
  case Nil
  then show ?case by simp
next
  case (Cons x cs)
  show ?case
  proof (cases x)
    case (NextNonceCall b r)
    show ?thesis
    proof (cases "b = a")
      case True
      have rest: "sorted (returned_for q a cs)"
        using Cons NextNonceCall True by simp
      have "\<forall>y \<in> set (returned_for q a cs). cached q a \<le> y"
        using Cons.prems(1) NextNonceCall by (intro returned_for_above_cache) simp_all
      moreover have "\<forall>y \<in> set (returned_for q a cs). r \<le> y"
        using Cons.prems(2) NextNonceCall True by (intro returned_for_above_answers) simp
      ultimately have "\<forall>y \<in> set (returned_for q a cs). max (cached q a) r \<le> y"
        by simp
      then show ?thesis
        using rest NextNonceCall True
        by (simp add: returned_for_Cons del: returned_for.simps)
    next
      case False
      then show ?thesis
        using Cons NextNonceCall by (simp add: returned_for_Cons del: returned_for.simps)
    qed
  next
    case (SubmitCall b r)
    let ?q' = "snd (submit_allocate q b r)"
    show ?thesis
    proof (cases "b = a")
      case True
      have rest: "sorted (returned_for ?q' a cs)"
        using Cons SubmitCall True by simp
      have "cached ?q' a = max (cached q a) r + 1"
        using True by (simp add: submit_allocate_cached)
      then have "max (cached q a) r \<le> cached ?q' a"
        by linarith
      then have "\<forall>y \<in> set (returned_for ?q' a cs). max (cached q a) r \<le> y"
        using Cons.prems(1) SubmitCall by (intro returned_for_above_cache) simp_all
      then show ?thesis
        using rest SubmitCall True
        by (simp add: returned_for_Cons del: returned_for.simps)
    next
      case False
      then show ?thesis
        using Cons SubmitCall by (simp add: returned_for_Cons del: returned_for.simps)
    qed
  next
    case (InvalidReport b n)
    then show ?thesis
      using Cons by (auto split: if_splits)
  qed
qed

section \<open>Nonce allocation\<close>

text \<open>
  Claim C1 says that the nonces allocated to calls of \<^verbatim>\<open>submit\<close> for one signer address,
  issued without awaiting one another, are strictly increasing with no duplicates, the
  cached next nonce being advanced before another submission for the address can read it.
  The code reads the cache on line 92 and writes it on line 107, with the \<^verbatim>\<open>await\<close> of
  line 93 in between. Two calls for \<open>alice\<close> issued back to back on a fresh queue both
  read 0; when the remote answers 0 to both, both are allocated the nonce 0, and the
  cache ends at 1.
\<close>

theorem concurrent_submits_share_nonce:
  "allocated (run (sched_init new_TxQueue)
      [CallSubmit ''alice'', CallSubmit ''alice'',
       RpcAnswer 0 0, Resume 0, RpcAnswer 1 0, Resume 1])
     = [(''alice'', 0), (''alice'', 0)]
   \<and> cached (sched_queue (run (sched_init new_TxQueue)
      [CallSubmit ''alice'', CallSubmit ''alice'',
       RpcAnswer 0 0, Resume 0, RpcAnswer 1 0, Resume 1])) ''alice'' = 1"
  by (simp add: run_def sched_init_def new_TxQueue_def nextNonce_begin_def nextNonce_end_def
      cached_def reserve_def)

text \<open>
  Claim C2. For every address, \<^verbatim>\<open>nextNonce(address)\<close> returns the maximum of the locally
  cached next nonce for that address (0 when the tracker has no entry) and the
  next-account-index reported by the remote node, and it leaves the tracker as it was.
\<close>

theorem nextNonce_max_and_pure:
  "nextNonce q address byRpc =
     (max (case nonceTracker q address of None \<Rightarrow> 0 | Some n \<Rightarrow> n) byRpc, q)"
  by (simp add: nextNonce_def nextNonce_begin_def nextNonce_end_def cached_eq)

section \<open>Facts about the status subscription\<close>

subsection \<open>The loop over the events\<close>

lemma scan_queue: "queue (state_of (scan_events es s)) = queue s"
  by (induction es arbitrary: s) (auto simp: reject_def unsub_def split: list.splits)

lemma scan_hash: "hash (state_of (scan_events es s)) = hash s"
  by (induction es arbitrary: s) (auto simp: reject_def unsub_def split: list.splits)

lemma scan_settled:
  "promise s \<noteq> Pending \<Longrightarrow> promise (state_of (scan_events es s)) = promise s"
  by (induction es arbitrary: s) (auto simp: reject_def unsub_def split: list.splits)

lemma scan_unsubscribed:
  "unsubscribed s \<Longrightarrow> unsubscribed (state_of (scan_events es s))"
  by (induction es arbitrary: s) (auto simp: reject_def unsub_def split: list.splits)

lemma scan_no_failure:
  "find is_ExtrinsicFailed es = None \<Longrightarrow> scan_events es s = Normal s"
  by (induction es arbitrary: s) (auto split: if_splits)

lemma scan_some_failure:
  "find is_ExtrinsicFailed es = Some e \<Longrightarrow> unsubscribed (state_of (scan_events es s))"
proof (induction es arbitrary: s)
  case Nil
  then show ?case by simp
next
  case (Cons x xs)
  show ?case
  proof (cases "is_ExtrinsicFailed x")
    case True
    have "unsubscribed (reject r (unsub s))" for r
      by (simp add: reject_def unsub_def)
    then show ?thesis
      using True by (auto simp: unsub_def scan_unsubscribed split: list.splits)
  next
    case False
    with Cons show ?thesis by simp
  qed
qed

lemma reject_not_resolved:
  "promise s \<noteq> Resolved out \<Longrightarrow> promise (reject r (unsub s)) \<noteq> Resolved out"
  by (simp add: reject_def unsub_def)

lemma scan_not_resolved:
  "promise s \<noteq> Resolved out \<Longrightarrow> promise (state_of (scan_events es s)) \<noteq> Resolved out"
proof (induction es arbitrary: s)
  case Nil
  then show ?case by simp
next
  case (Cons x xs)
  show ?case
  proof (cases "is_ExtrinsicFailed x")
    case True
    show ?thesis
    proof (cases "ev_data x")
      case Nil
      then show ?thesis
        using True Cons.prems by (simp add: unsub_def)
    next
      case data: (Cons d ds)
      have "promise (state_of (scan_events xs (reject (FailurePayload d) (unsub s))))
            \<noteq> Resolved out"
        using Cons.prems by (intro Cons.IH reject_not_resolved)
      then show ?thesis
        using True data by simp
    qed
  next
    case False
    then show ?thesis
      using Cons.IH [OF Cons.prems] by simp
  qed
qed

lemma scan_first_failure:
  "promise s = Pending \<Longrightarrow> find is_ExtrinsicFailed es = Some e \<Longrightarrow> ev_data e = d # ds \<Longrightarrow>
   promise (state_of (scan_events es s)) = Rejected (FailurePayload d)"
proof (induction es arbitrary: s)
  case Nil
  then show ?case by simp
next
  case (Cons x xs)
  show ?case
  proof (cases "is_ExtrinsicFailed x")
    case True
    with Cons.prems have x: "x = e" by simp
    have "promise (reject (FailurePayload d) (unsub s)) = Rejected (FailurePayload d)"
      using Cons.prems(1) by (simp add: reject_def unsub_def)
    then have "promise (state_of (scan_events xs (reject (FailurePayload d) (unsub s))))
               = Rejected (FailurePayload d)"
      by (simp add: scan_settled)
    then show ?thesis
      using True x Cons.prems(3) by simp
  next
    case False
    with Cons show ?thesis by simp
  qed
qed

lemma deliver_unsubscribed: "unsubscribed s \<Longrightarrow> deliver w a n rs s = s"
  by (cases rs) simp_all

lemma callback_settled:
  "promise s \<noteq> Pending \<Longrightarrow> promise (state_of (callback w a n r s)) = promise s"
proof (cases "res_status r")
  case (IsInBlock h)
  assume p: "promise s \<noteq> Pending"
  have "promise (state_of (scan_events (res_events r) s)) = promise s"
    using p by (rule scan_settled)
  then show ?thesis
    using IsInBlock p
    by (cases "scan_events (res_events r) s") (auto simp: callback_def resolve_def unsub_def)
qed (auto simp: callback_def resolve_def reject_def unsub_def Let_def)

lemma deliver_settled:
  "promise s \<noteq> Pending \<Longrightarrow> promise (deliver w a n rs s) = promise s"
  by (induction rs arbitrary: s) (auto simp: callback_settled)

subsection \<open>One status update, and a run of them\<close>

lemma callback_resolves:
  assumes "promise s = Pending"
    and "promise (state_of (callback w a n r s)) = Resolved out"
  shows "out_events out = res_events r \<and>
         (case res_status r of
            IsInBlock h \<Rightarrow> \<not> w \<and> out_hash out = Some h
          | IsFinalized h \<Rightarrow> out_hash out = hash s
          | IsInvalid \<Rightarrow> False
          | OtherStatus \<Rightarrow> False)"
proof (cases "res_status r")
  case (IsInBlock h)
  let ?c = "scan_events (res_events r) s"
  have nr: "promise (state_of ?c) \<noteq> Resolved out"
    using assms(1) by (intro scan_not_resolved) simp
  show ?thesis
  proof (cases ?c)
    case (Thrown s1)
    then show ?thesis
      using nr assms(2) IsInBlock by (simp add: callback_def)
  next
    case (Normal s1)
    show ?thesis
    proof (cases w)
      case True
      then show ?thesis
        using nr assms(2) IsInBlock Normal by (simp add: callback_def)
    next
      case False
      then show ?thesis
        using nr assms(2) IsInBlock Normal
        by (auto simp: callback_def resolve_def unsub_def split: if_splits)
    qed
  qed
next
  case (IsFinalized h)
  then show ?thesis
    using assms by (auto simp: callback_def resolve_def)
next
  case IsInvalid
  then show ?thesis
    using assms by (auto simp: callback_def reject_def unsub_def Let_def)
next
  case OtherStatus
  then show ?thesis
    using assms by (auto simp: callback_def)
qed

lemma callback_stays_open:
  assumes "promise s = Pending"
    and "promise (state_of (callback w a n r s)) = Pending"
    and "\<not> unsubscribed (state_of (callback w a n r s))"
  shows "hash (state_of (callback w a n r s)) =
           (if w then (case res_status r of IsInBlock h \<Rightarrow> Some h | _ \<Rightarrow> hash s) else hash s)"
proof (cases "res_status r")
  case (IsInBlock h)
  let ?c = "scan_events (res_events r) s"
  show ?thesis
  proof (cases ?c)
    case (Thrown s1)
    have "unsubscribed (state_of ?c)"
    proof (cases "find is_ExtrinsicFailed (res_events r)")
      case None
      then show ?thesis using Thrown by (simp add: scan_no_failure)
    next
      case (Some e)
      then show ?thesis by (rule scan_some_failure)
    qed
    then show ?thesis
      using assms(3) IsInBlock Thrown by (simp add: callback_def)
  next
    case (Normal s1)
    have h1: "hash s1 = hash s"
      using scan_hash [of "res_events r" s] Normal by simp
    show ?thesis
    proof (cases w)
      case True
      then show ?thesis
        using IsInBlock Normal by (simp add: callback_def)
    next
      case False
      then show ?thesis
        using IsInBlock Normal h1 assms(3) by (simp add: callback_def resolve_def unsub_def)
    qed
  qed
next
  case (IsFinalized h)
  then show ?thesis
    using assms by (auto simp: callback_def resolve_def)
next
  case IsInvalid
  then show ?thesis
    using assms by (auto simp: callback_def reject_def unsub_def Let_def)
next
  case OtherStatus
  then show ?thesis
    using assms by (auto simp: callback_def)
qed

lemma deliver_resolved:
  assumes "promise s = Pending"
    and "promise (deliver w a n rs s) = Resolved out"
  shows "\<exists>pre r post. rs = pre @ r # post \<and> out_events out = res_events r \<and>
           (case res_status r of
              IsInBlock h \<Rightarrow> \<not> w \<and> out_hash out = Some h
            | IsFinalized h \<Rightarrow>
                out_hash out = (if w then last_in_block pre (hash s) else hash s)
            | IsInvalid \<Rightarrow> False
            | OtherStatus \<Rightarrow> False)"
  using assms
proof (induction rs arbitrary: s)
  case Nil
  then show ?case by simp
next
  case (Cons x xs)
  let ?s1 = "state_of (callback w a n x s)"
  have open_s: "\<not> unsubscribed s"
    using Cons.prems by (auto simp: deliver_unsubscribed)
  then have d: "deliver w a n (x # xs) s = deliver w a n xs ?s1"
    by simp
  show ?case
  proof (cases "promise ?s1 = Pending")
    case True
    have res: "promise (deliver w a n xs ?s1) = Resolved out"
      using Cons.prems(2) d by simp
    have open1: "\<not> unsubscribed ?s1"
      using res True by (auto simp: deliver_unsubscribed)
    have h1: "hash ?s1 =
        (if w then (case res_status x of IsInBlock h \<Rightarrow> Some h | _ \<Rightarrow> hash s) else hash s)"
      using Cons.prems(1) True open1 by (rule callback_stays_open)
    obtain pre r post where split: "xs = pre @ r # post"
      and ev: "out_events out = res_events r"
      and st: "(case res_status r of
              IsInBlock h \<Rightarrow> \<not> w \<and> out_hash out = Some h
            | IsFinalized h \<Rightarrow>
                out_hash out = (if w then last_in_block pre (hash ?s1) else hash ?s1)
            | IsInvalid \<Rightarrow> False
            | OtherStatus \<Rightarrow> False)"
      using Cons.IH [OF True res] by blast
    have "x # xs = (x # pre) @ r # post"
      using split by simp
    moreover have "(case res_status r of
              IsInBlock h \<Rightarrow> \<not> w \<and> out_hash out = Some h
            | IsFinalized h \<Rightarrow>
                out_hash out = (if w then last_in_block (x # pre) (hash s) else hash s)
            | IsInvalid \<Rightarrow> False
            | OtherStatus \<Rightarrow> False)"
      using st h1 by (cases "res_status r") (auto split: if_splits)
    ultimately show ?thesis
      using ev by blast
  next
    case False
    have "promise (deliver w a n xs ?s1) = promise ?s1"
      using False by (rule deliver_settled)
    then have r1: "promise ?s1 = Resolved out"
      using Cons.prems(2) d by simp
    have c: "out_events out = res_events x \<and>
         (case res_status x of
            IsInBlock h \<Rightarrow> \<not> w \<and> out_hash out = Some h
          | IsFinalized h \<Rightarrow> out_hash out = hash s
          | IsInvalid \<Rightarrow> False
          | OtherStatus \<Rightarrow> False)"
      using Cons.prems(1) r1 by (rule callback_resolves)
    have "x # xs = [] @ x # xs" by simp
    moreover have "(case res_status x of
              IsInBlock h \<Rightarrow> \<not> w \<and> out_hash out = Some h
            | IsFinalized h \<Rightarrow>
                out_hash out = (if w then last_in_block [] (hash s) else hash s)
            | IsInvalid \<Rightarrow> False
            | OtherStatus \<Rightarrow> False)"
      using c by (cases "res_status x") auto
    ultimately show ?thesis
      using c by blast
  qed
qed

lemma callback_in_block_failure:
  assumes "promise s = Pending" "res_status r = IsInBlock h"
    "find is_ExtrinsicFailed (res_events r) = Some e" "ev_data e = d # ds"
  shows "promise (state_of (callback w a n r s)) = Rejected (FailurePayload d)"
    and "unsubscribed (state_of (callback w a n r s))"
    and "queue (state_of (callback w a n r s)) = queue s"
proof -
  let ?c = "scan_events (res_events r) s"
  have p: "promise (state_of ?c) = Rejected (FailurePayload d)"
    using assms(1,3,4) by (rule scan_first_failure)
  have u: "unsubscribed (state_of ?c)"
    using assms(3) by (rule scan_some_failure)
  have q: "queue (state_of ?c) = queue s"
    by (rule scan_queue)
  show "promise (state_of (callback w a n r s)) = Rejected (FailurePayload d)"
    using p assms(2) by (cases ?c) (auto simp: callback_def resolve_def unsub_def)
  show "unsubscribed (state_of (callback w a n r s))"
    using u assms(2) by (cases ?c) (auto simp: callback_def resolve_def unsub_def)
  show "queue (state_of (callback w a n r s)) = queue s"
    using q assms(2) by (cases ?c) (auto simp: callback_def resolve_def unsub_def)
qed


section \<open>Outcomes of \<^verbatim>\<open>submit\<close>\<close>

text \<open>
  Claim C3, as amended. Whenever the promise of a call of \<^verbatim>\<open>submit\<close> is resolved, one
  of the status updates delivered resolved it, and the outcome carries the events of
  that update. If that update is an in-block update, \<^verbatim>\<open>waitForFinalization\<close> is false
  and the outcome's block reference is that update's block. If it is a finalized update,
  the outcome's block reference is the value of the variable \<^verbatim>\<open>hash\<close>: with
  \<^verbatim>\<open>waitForFinalization\<close> the block of the last in-block update before it (undefined
  when there was none), without it undefined. The finalized status's own block
  reference is not part of the outcome, which has these two fields only. No other
  status resolves the promise.
\<close>

theorem submit_resolved_outcome:
  assumes "promise (submit q a w byRpc updates) = Resolved out"
  shows "\<exists>pre r post. updates = pre @ r # post \<and> out_events out = res_events r \<and>
           (case res_status r of
              IsInBlock h \<Rightarrow> \<not> w \<and> out_hash out = Some h
            | IsFinalized h \<Rightarrow> out_hash out = (if w then last_in_block pre None else None)
            | IsInvalid \<Rightarrow> False
            | OtherStatus \<Rightarrow> False)"
proof -
  obtain nonce s where b: "submit_begin q a byRpc = (nonce, s)"
    by (cases "submit_begin q a byRpc")
  then have s: "promise s = Pending" "hash s = None"
    by (auto simp: submit_begin_def split: prod.splits)
  have d: "promise (deliver w a nonce updates s) = Resolved out"
    using assms b by (simp add: submit_def)
  show ?thesis
    using deliver_resolved [OF s(1) d] unfolding s(2) .
qed

text \<open>
  The theorem at work: with \<^verbatim>\<open>waitForFinalization\<close>, an in-block update for block
  \<open>0xaa\<close> followed by the finalized update resolves the promise with \<open>0xaa\<close>.
\<close>

theorem submit_resolved_outcome_witness:
  "promise (submit new_TxQueue ''alice'' True 0
      [\<lparr>res_status = IsInBlock ''0xaa'', res_events = []\<rparr>,
       \<lparr>res_status = IsFinalized ''0xaa'', res_events = []\<rparr>])
     = Resolved \<lparr>out_hash = Some ''0xaa'', out_events = []\<rparr>
   \<and> (\<exists>pre r post.
        [\<lparr>res_status = IsInBlock ''0xaa'', res_events = []\<rparr>,
         \<lparr>res_status = IsFinalized ''0xaa'', res_events = []\<rparr>] = pre @ r # post
        \<and> out_events \<lparr>out_hash = Some ''0xaa'', out_events = []\<rparr> = res_events r
        \<and> (case res_status r of
              IsInBlock h \<Rightarrow> \<not> True \<and> out_hash \<lparr>out_hash = Some ''0xaa'', out_events = []\<rparr> = Some h
            | IsFinalized h \<Rightarrow>
                out_hash \<lparr>out_hash = Some ''0xaa'', out_events = []\<rparr>
                  = (if True then last_in_block pre None else None)
            | IsInvalid \<Rightarrow> False
            | OtherStatus \<Rightarrow> False))"
proof -
  have r: "promise (submit new_TxQueue ''alice'' True 0
      [\<lparr>res_status = IsInBlock ''0xaa'', res_events = []\<rparr>,
       \<lparr>res_status = IsFinalized ''0xaa'', res_events = []\<rparr>])
     = Resolved \<lparr>out_hash = Some ''0xaa'', out_events = []\<rparr>"
    by (simp add: submit_def submit_begin_def submit_allocate_def nextNonce_def callback_def
        resolve_def Let_def)
  show ?thesis
    using r submit_resolved_outcome [OF r] by blast
qed

text \<open>
  Claim C3 as it is written fails. The operation is included in block \<open>0xbb\<close> and, on
  a fork, in block \<open>0xaa\<close>; then \<open>0xbb\<close> is finalized. With \<^verbatim>\<open>waitForFinalization\<close> the
  outcome carries \<open>0xaa\<close>, the block of the last in-block update, and the finalized
  block \<open>0xbb\<close> is nowhere in it.
\<close>

theorem finalized_block_not_in_outcome:
  "promise (submit new_TxQueue ''alice'' True 0
      [\<lparr>res_status = IsInBlock ''0xbb'', res_events = []\<rparr>,
       \<lparr>res_status = IsInBlock ''0xaa'', res_events = []\<rparr>,
       \<lparr>res_status = IsFinalized ''0xbb'', res_events = []\<rparr>])
     = Resolved \<lparr>out_hash = Some ''0xaa'', out_events = []\<rparr>"
  by (simp add: submit_def submit_begin_def submit_allocate_def nextNonce_def callback_def
      resolve_def Let_def)

text \<open>
  Claim C4. Whenever a status update reports the operation in a block together with a
  failure event (an event of section \<open>system\<close> and method \<open>ExtrinsicFailed\<close>), while the
  promise is pending and the subscription is open, \<^verbatim>\<open>submit\<close> rejects with the
  rendering of the first datum of the first such event, and the queue, so the cached
  nonce of every address, stays as it was, whatever status updates follow: there is no
  rollback.
\<close>

theorem semantic_failure_rejects:
  assumes "promise s = Pending" and "\<not> unsubscribed s"
    and "res_status r = IsInBlock h"
    and "find is_ExtrinsicFailed (res_events r) = Some e"
    and "ev_data e = d # ds"
  shows "promise (deliver w a n (r # rest) s) = Rejected (FailurePayload d)
         \<and> queue (deliver w a n (r # rest) s) = queue s"
proof -
  let ?s1 = "state_of (callback w a n r s)"
  have "deliver w a n (r # rest) s = deliver w a n rest ?s1"
    using assms(2) by simp
  also have "\<dots> = ?s1"
    using callback_in_block_failure(2) [OF assms(1,3,4,5)] by (rule deliver_unsubscribed)
  finally show ?thesis
    using callback_in_block_failure(1,3) [OF assms(1,3,4,5)] by simp
qed


theorem semantic_failure_rejects_witness:
  "promise (snd (submit_begin new_TxQueue ''alice'' 7)) = Pending
   \<and> \<not> unsubscribed (snd (submit_begin new_TxQueue ''alice'' 7))
   \<and> find is_ExtrinsicFailed
        [\<lparr>ev_section = ''system'', ev_method = ''ExtrinsicFailed'', ev_data = [''BadOrigin'', ''info'']\<rparr>]
       = Some \<lparr>ev_section = ''system'', ev_method = ''ExtrinsicFailed'', ev_data = [''BadOrigin'', ''info'']\<rparr>
   \<and> promise (deliver False ''alice'' 7
        [\<lparr>res_status = IsInBlock ''0xaa'',
          res_events = [\<lparr>ev_section = ''system'', ev_method = ''ExtrinsicFailed'',
                         ev_data = [''BadOrigin'', ''info'']\<rparr>]\<rparr>,
         \<lparr>res_status = IsInvalid, res_events = []\<rparr>]
        (snd (submit_begin new_TxQueue ''alice'' 7)))
       = Rejected (FailurePayload ''BadOrigin'')
   \<and> cached (queue (deliver False ''alice'' 7
        [\<lparr>res_status = IsInBlock ''0xaa'',
          res_events = [\<lparr>ev_section = ''system'', ev_method = ''ExtrinsicFailed'',
                         ev_data = [''BadOrigin'', ''info'']\<rparr>]\<rparr>,
         \<lparr>res_status = IsInvalid, res_events = []\<rparr>]
        (snd (submit_begin new_TxQueue ''alice'' 7)))) ''alice'' = 8"
proof -
  let ?e = "\<lparr>ev_section = ''system'', ev_method = ''ExtrinsicFailed'',
             ev_data = [''BadOrigin'', ''info'']\<rparr>"
  let ?r = "\<lparr>res_status = IsInBlock ''0xaa'', res_events = [?e]\<rparr>"
  let ?s = "snd (submit_begin new_TxQueue ''alice'' 7)"
  have h1: "promise ?s = Pending" and h2: "\<not> unsubscribed ?s"
    by (simp_all add: submit_begin_def submit_allocate_def nextNonce_def)
  have h3: "res_status ?r = IsInBlock ''0xaa''"
    by simp
  have h4: "find is_ExtrinsicFailed (res_events ?r) = Some ?e"
    by (simp add: is_ExtrinsicFailed_def)
  have h5: "ev_data ?e = ''BadOrigin'' # [''info'']"
    by simp
  have q: "cached (queue ?s) ''alice'' = 8"
    by (simp add: submit_begin_def submit_allocate_def nextNonce_def nextNonce_begin_def
        nextNonce_end_def cached_def reserve_def new_TxQueue_def)
  show ?thesis
    using semantic_failure_rejects [OF h1 h2 h3 h4 h5,
        of False "''alice''" 7 "[\<lparr>res_status = IsInvalid, res_events = []\<rparr>]"]
      h1 h2 h4 q
    by simp
qed

text \<open>
  Claim C9 says that the status subscription is torn down whenever the promise settles.
  Lines 115, 120 and 134 call \<^verbatim>\<open>unsub()\<close> before they settle the promise; the branch
  of lines 128-132, which resolves on a finalized update, does not. With
  \<^verbatim>\<open>waitForFinalization\<close>, after an in-block update and the finalized update the promise
  is resolved and the subscription is still open; without it, the in-block update
  resolves the promise and closes the subscription.
\<close>

theorem finalized_leaves_subscription_open:
  "promise (submit new_TxQueue ''alice'' True 0
      [\<lparr>res_status = IsInBlock ''0xaa'', res_events = []\<rparr>,
       \<lparr>res_status = IsFinalized ''0xaa'', res_events = []\<rparr>])
     = Resolved \<lparr>out_hash = Some ''0xaa'', out_events = []\<rparr>
   \<and> \<not> unsubscribed (submit new_TxQueue ''alice'' True 0
      [\<lparr>res_status = IsInBlock ''0xaa'', res_events = []\<rparr>,
       \<lparr>res_status = IsFinalized ''0xaa'', res_events = []\<rparr>])
   \<and> promise (submit new_TxQueue ''alice'' False 0
      [\<lparr>res_status = IsInBlock ''0xaa'', res_events = []\<rparr>])
     = Resolved \<lparr>out_hash = Some ''0xaa'', out_events = []\<rparr>
   \<and> unsubscribed (submit new_TxQueue ''alice'' False 0
      [\<lparr>res_status = IsInBlock ''0xaa'', res_events = []\<rparr>])"
  by (simp add: submit_def submit_begin_def submit_allocate_def nextNonce_def callback_def
      resolve_def unsub_def Let_def)

section \<open>Rollback and monotonicity of the nonces\<close>

lemma callback_invalid:
  "res_status r = IsInvalid \<Longrightarrow>
   queue (state_of (callback w a n r s)) = markNonceFailed (queue s) a n"
  by (simp add: callback_def reject_def unsub_def Let_def)

text \<open>
  Claim C5 says that the rollback lowers the cached value to the failed nonce exactly
  when the cache was strictly ahead of it (this is \<open>markNonceFailed_rollback\<close> above),
  and that no other operation ever moves the cache downward. The reservation on line 107
  can: it writes the nonce computed from the cache as it was before the \<^verbatim>\<open>await\<close> of line
  93. Two calls for \<open>alice\<close> start on a fresh queue and both read 0. The remote answers
  5 to the first, which reserves and leaves the cache at 6, and 3 to the second, which
  is allocated 3 and writes 4 over the 6. No submission was rejected as invalid. The
  same happens with a remote that always answers 0 when the first of three calls is
  answered last: the cache goes from 2 down to 1.
\<close>

theorem stale_reservation_lowers_cache:
  "cached (sched_queue (run (sched_init new_TxQueue)
      [CallSubmit ''alice'', CallSubmit ''alice'', RpcAnswer 0 5, Resume 0])) ''alice'' = 6
   \<and> cached (sched_queue (run (sched_init new_TxQueue)
      [CallSubmit ''alice'', CallSubmit ''alice'', RpcAnswer 0 5, Resume 0,
       RpcAnswer 1 3, Resume 1])) ''alice'' = 4
   \<and> allocated (run (sched_init new_TxQueue)
      [CallSubmit ''alice'', CallSubmit ''alice'', RpcAnswer 0 5, Resume 0,
       RpcAnswer 1 3, Resume 1])
     = [(''alice'', 5), (''alice'', 3)]
   \<and> cached (sched_queue (run (sched_init new_TxQueue)
      [CallSubmit ''alice'', CallSubmit ''alice'', RpcAnswer 1 0, Resume 1,
       CallSubmit ''alice'', RpcAnswer 2 0, Resume 2])) ''alice'' = 2
   \<and> cached (sched_queue (run (sched_init new_TxQueue)
      [CallSubmit ''alice'', CallSubmit ''alice'', RpcAnswer 1 0, Resume 1,
       CallSubmit ''alice'', RpcAnswer 2 0, Resume 2, RpcAnswer 0 0, Resume 0])) ''alice'' = 1"
  by (simp add: run_def sched_init_def new_TxQueue_def nextNonce_begin_def nextNonce_end_def
      cached_def reserve_def eval_nat_numeral)

text \<open>
  Claim C6, as amended. After the status update that reports the operation with nonce
  \<open>n\<close> of address \<open>a\<close> invalid, the queue is the one \<^verbatim>\<open>markNonceFailed\<close> gives; its
  cached value for \<open>a\<close> is at most the cached value in effect just before the failure;
  the next \<^verbatim>\<open>nextNonce(a)\<close> on it returns at most the maximum of that earlier cached value
  and the remote's reported index, so at most that earlier cached value whenever the
  remote's index does not exceed it; and it returns exactly \<open>n\<close> when the cache was ahead
  of \<open>n\<close> and the remote's index is at most \<open>n\<close>.
\<close>

theorem nextNonce_after_invalid:
  assumes "res_status r = IsInvalid"
  shows "queue (state_of (callback w a n r s)) = markNonceFailed (queue s) a n
         \<and> cached (markNonceFailed (queue s) a n) a \<le> cached (queue s) a
         \<and> fst (nextNonce (markNonceFailed (queue s) a n) a byRpc)
             \<le> max (cached (queue s) a) byRpc
         \<and> (byRpc \<le> cached (queue s) a \<longrightarrow>
              fst (nextNonce (markNonceFailed (queue s) a n) a byRpc) \<le> cached (queue s) a)
         \<and> (n < cached (queue s) a \<and> byRpc \<le> n \<longrightarrow>
              fst (nextNonce (markNonceFailed (queue s) a n) a byRpc) = n)"
  using callback_invalid [OF assms, of w a n s]
  by (auto simp: fst_nextNonce cached_markNonceFailed)


text \<open>
  The scenario of the specification: the cache of \<open>alice\<close> is 5 and the remote reports 3;
  \<^verbatim>\<open>submit\<close> allocates 5 and the cache advances to 6; the operation is reported invalid;
  with the remote still at 3 the next \<^verbatim>\<open>nextNonce\<close> returns 5.
\<close>

theorem nextNonce_after_invalid_witness:
  "res_status \<lparr>res_status = IsInvalid, res_events = []\<rparr> = IsInvalid
   \<and> cached (queue (snd (submit_begin (reserve new_TxQueue ''alice'' 4) ''alice'' 3))) ''alice'' = 6
   \<and> (3::nat) \<le> 6 \<and> (5::nat) < 6 \<and> (3::nat) \<le> 5
   \<and> queue (state_of (callback False ''alice'' 5 \<lparr>res_status = IsInvalid, res_events = []\<rparr>
          (snd (submit_begin (reserve new_TxQueue ''alice'' 4) ''alice'' 3))))
       = markNonceFailed (queue (snd (submit_begin (reserve new_TxQueue ''alice'' 4) ''alice'' 3)))
           ''alice'' 5
   \<and> fst (nextNonce
         (markNonceFailed (queue (snd (submit_begin (reserve new_TxQueue ''alice'' 4) ''alice'' 3)))
            ''alice'' 5) ''alice'' 3) = 5"
proof -
  let ?s = "snd (submit_begin (reserve new_TxQueue ''alice'' 4) ''alice'' 3)"
  let ?r = "\<lparr>res_status = IsInvalid, res_events = []\<rparr>"
  have h: "res_status ?r = IsInvalid"
    by simp
  have c: "cached (queue ?s) ''alice'' = 6"
    by (simp add: submit_begin_def submit_allocate_def nextNonce_def nextNonce_begin_def
        nextNonce_end_def cached_def reserve_def new_TxQueue_def)
  show ?thesis
    using nextNonce_after_invalid [OF h, of False "''alice''" 5 ?s 3] c
    by simp
qed

text \<open>
  Claim C6 as it is written fails. In the same scenario the remote reports 9 after the
  rollback: \<^verbatim>\<open>nextNonce\<close> returns 9, more than the cached value before the failed attempt
  (5) and more than the cached value before the failure (6).
\<close>

theorem nextNonce_after_invalid_exceeds_cache:
  "cached (reserve new_TxQueue ''alice'' 4) ''alice'' = 5
   \<and> fst (submit_begin (reserve new_TxQueue ''alice'' 4) ''alice'' 3) = 5
   \<and> cached (queue (snd (submit_begin (reserve new_TxQueue ''alice'' 4) ''alice'' 3))) ''alice'' = 6
   \<and> promise (submit (reserve new_TxQueue ''alice'' 4) ''alice'' False 3
        [\<lparr>res_status = IsInvalid, res_events = []\<rparr>]) = Rejected InvalidTransaction
   \<and> cached (queue (submit (reserve new_TxQueue ''alice'' 4) ''alice'' False 3
        [\<lparr>res_status = IsInvalid, res_events = []\<rparr>])) ''alice'' = 5
   \<and> fst (nextNonce (queue (submit (reserve new_TxQueue ''alice'' 4) ''alice'' False 3
        [\<lparr>res_status = IsInvalid, res_events = []\<rparr>])) ''alice'' 9) = 9"
  by (simp add: submit_def submit_begin_def submit_allocate_def nextNonce_def nextNonce_begin_def
      nextNonce_end_def cached_def reserve_def new_TxQueue_def callback_def reject_def unsub_def
      markNonceFailed_def Let_def)

text \<open>
  Claim C7, as amended. For a fixed address, the values returned by successive calls of
  \<^verbatim>\<open>nextNonce\<close>, those made by \<^verbatim>\<open>submit\<close> included, are monotonically non-decreasing as
  long as no operation of that address is reported invalid between them, for every
  sequence of calls of \<^verbatim>\<open>nextNonce\<close> and \<^verbatim>\<open>submit\<close>, for this and for other addresses,
  that do not overlap and for every sequence of remote next-account-index responses for
  the address that does not decrease. And once a call of \<^verbatim>\<open>submit\<close> has reserved its
  nonce, a later \<^verbatim>\<open>nextNonce\<close> on the queue it leaves returns a strictly greater value than
  that nonce, whatever the remote reports.
\<close>

theorem nextNonce_monotone:
  "(rollbacks_for a cs = [] \<and> sorted (answers_for a cs) \<longrightarrow> sorted (returned_for q a cs))
   \<and> fst (submit_allocate q a r) < fst (nextNonce (snd (submit_allocate q a r)) a r')"
  by (auto simp: returned_for_sorted fst_nextNonce submit_allocate_fst submit_allocate_cached)

theorem nextNonce_monotone_witness:
  "rollbacks_for ''alice''
     [NextNonceCall ''alice'' 2, SubmitCall ''bob'' 9, SubmitCall ''alice'' 2,
      InvalidReport ''bob'' 3, NextNonceCall ''alice'' 2, SubmitCall ''alice'' 7] = []
   \<and> answers_for ''alice''
     [NextNonceCall ''alice'' 2, SubmitCall ''bob'' 9, SubmitCall ''alice'' 2,
      InvalidReport ''bob'' 3, NextNonceCall ''alice'' 2, SubmitCall ''alice'' 7] = [2, 2, 2, 7]
   \<and> returned_for new_TxQueue ''alice''
     [NextNonceCall ''alice'' 2, SubmitCall ''bob'' 9, SubmitCall ''alice'' 2,
      InvalidReport ''bob'' 3, NextNonceCall ''alice'' 2, SubmitCall ''alice'' 7] = [2, 2, 3, 7]
   \<and> sorted (returned_for new_TxQueue ''alice''
     [NextNonceCall ''alice'' 2, SubmitCall ''bob'' 9, SubmitCall ''alice'' 2,
      InvalidReport ''bob'' 3, NextNonceCall ''alice'' 2, SubmitCall ''alice'' 7])
   \<and> fst (submit_allocate new_TxQueue ''alice'' 5)
       < fst (nextNonce (snd (submit_allocate new_TxQueue ''alice'' 5)) ''alice'' 3)"
proof -
  let ?cs = "[NextNonceCall ''alice'' 2, SubmitCall ''bob'' 9, SubmitCall ''alice'' 2,
      InvalidReport ''bob'' 3, NextNonceCall ''alice'' 2, SubmitCall ''alice'' 7]"
  have h1: "rollbacks_for ''alice'' ?cs = []"
    by simp
  have h2: "answers_for ''alice'' ?cs = [2, 2, 2, 7]"
    by simp
  have h3: "returned_for new_TxQueue ''alice'' ?cs = [2, 2, 3, 7]"
    by (simp add: nextNonce_def nextNonce_begin_def nextNonce_end_def submit_allocate_def
        cached_def reserve_def markNonceFailed_def new_TxQueue_def)
  have h: "rollbacks_for ''alice'' ?cs = [] \<and> sorted (answers_for ''alice'' ?cs)"
    using h1 h2 by simp
  show ?thesis
    using nextNonce_monotone [where a = "''alice''" and cs = ?cs and q = new_TxQueue
        and r = 5 and r' = 3, THEN conjunct1, THEN mp, OF h]
      nextNonce_monotone [where a = "''alice''" and cs = ?cs and q = new_TxQueue
        and r = 5 and r' = 3, THEN conjunct2]
      h1 h2 h3
    by simp
qed

text \<open>
  Claim C7 as it is written fails. With nothing at all happening in between, the remote
  reports 5 and then 3 for \<open>alice\<close> on a fresh queue: \<^verbatim>\<open>nextNonce\<close> returns 5 and then 3.
  And with a remote that always reports 0 and no operation reported invalid, five
  overlapping calls of \<^verbatim>\<open>submit\<close>, the first of which is answered late, get 0, 1, 0,
  2, 1 in the order of their answers: the fourth call started gets 2 and the fifth,
  started after the late reservation of the first, gets 1.
\<close>

theorem nextNonce_not_monotone:
  "fst (nextNonce new_TxQueue ''alice'' 5) = 5
   \<and> snd (nextNonce new_TxQueue ''alice'' 5) = new_TxQueue
   \<and> fst (nextNonce new_TxQueue ''alice'' 3) = 3
   \<and> allocated (run (sched_init new_TxQueue)
      [CallSubmit ''alice'', CallSubmit ''alice'', RpcAnswer 1 0, Resume 1,
       CallSubmit ''alice'', RpcAnswer 2 0, Resume 2,
       CallSubmit ''alice'', RpcAnswer 0 0, Resume 0,
       CallSubmit ''alice'', RpcAnswer 3 0, Resume 3, RpcAnswer 4 0, Resume 4])
     = [(''alice'', 0), (''alice'', 1), (''alice'', 0), (''alice'', 2), (''alice'', 1)]"
  by (simp add: run_def sched_init_def new_TxQueue_def nextNonce_def nextNonce_begin_def
      nextNonce_end_def cached_def reserve_def eval_nat_numeral)

section \<open>Facts about the condition poller\<close>

lemma checkUntil_loop_step:
  "checkUntil_loop f late timeout t0 now =
     (if fst (f now) then Inr ()
      else if timeout \<le> now + int (snd (f now)) - t0 then Inl Timeout
      else checkUntil_loop f late timeout t0 (sleep late 100 (now + int (snd (f now)))))"
  by (subst checkUntil_loop.simps) (simp add: Let_def split: prod.splits)

lemma checkUntil_loop_true_later:
  assumes later: "\<And>t. d \<le> t \<Longrightarrow> fst (f t)"
    and early: "\<And>t. t < d \<Longrightarrow> t + int (snd (f t)) < t0 + timeout"
  shows "checkUntil_loop f late timeout t0 now = Inr ()"
proof (induction "nat (d - now)" arbitrary: now rule: less_induct)
  case less
  show ?case
  proof (cases "fst (f now)")
    case True
    then show ?thesis
      by (subst checkUntil_loop_step) simp
  next
    case False
    then have nd: "now < d"
      using later [of now] by force
    let ?next = "sleep late 100 (now + int (snd (f now)))"
    have "nat (d - ?next) < nat (d - now)"
      using nd by (simp add: sleep_def)
    then have "checkUntil_loop f late timeout t0 ?next = Inr ()"
      by (rule less)
    moreover have "\<not> timeout \<le> now + int (snd (f now)) - t0"
      using early [OF nd] by simp
    ultimately show ?thesis
      using False by (subst checkUntil_loop_step) simp
  qed
qed

lemma checkUntil_loop_all_false:
  assumes false: "\<And>k. k \<le> K \<Longrightarrow> \<not> fst (f (poll_start f late t0 k))"
    and over: "timeout \<le> poll_end f late t0 K - t0"
  shows "j \<le> K \<Longrightarrow> checkUntil_loop f late timeout t0 (poll_start f late t0 j) = Inl Timeout"
proof (induction "K - j" arbitrary: j)
  case 0
  then have "j = K" by simp
  then show ?case
    using false [of K] over by (subst checkUntil_loop_step) (simp add: poll_end_def)
next
  case (Suc n)
  then have j: "Suc j \<le> K" and n: "n = K - Suc j"
    by simp_all
  have "checkUntil_loop f late timeout t0 (poll_start f late t0 (Suc j)) = Inl Timeout"
    using n j by (rule Suc.hyps(1))
  then show ?case
    using false [of j] Suc.prems by (subst checkUntil_loop_step) simp
qed

lemma checkUntil_loop_some_true:
  assumes early: "\<And>k. k < K \<Longrightarrow> poll_end f late t0 k - t0 < timeout"
    and true: "fst (f (poll_start f late t0 K))"
  shows "j \<le> K \<Longrightarrow> checkUntil_loop f late timeout t0 (poll_start f late t0 j) = Inr ()"
proof (induction "K - j" arbitrary: j)
  case 0
  then have "j = K" by simp
  then show ?case
    using true by (subst checkUntil_loop_step) simp
next
  case (Suc n)
  then have j: "Suc j \<le> K" and n: "n = K - Suc j" and jK: "j < K"
    by simp_all
  have "checkUntil_loop f late timeout t0 (poll_start f late t0 (Suc j)) = Inr ()"
    using n j by (rule Suc.hyps(1))
  then show ?case
    using early [OF jK] by (subst checkUntil_loop_step) (simp add: poll_end_def)
qed

lemma checkUntilEq_loop_step:
  "checkUntilEq_loop f late expected timeout verbose t0 lastActual log now =
     (if fst (f now) = expected then (Inr (), log)
      else if timeout \<le> now + int (snd (f now)) - t0
        then (Inl Timeout,
              if Some (fst (f now)) \<noteq> lastActual \<and> verbose
              then log @ [(fst (f now), expected)] else log)
      else checkUntilEq_loop f late expected timeout verbose t0
             (if Some (fst (f now)) \<noteq> lastActual \<and> verbose
              then Some (fst (f now)) else lastActual)
             (if Some (fst (f now)) \<noteq> lastActual \<and> verbose
              then log @ [(fst (f now), expected)] else log)
             (sleep late 100 (now + int (snd (f now)))))"
  by (subst checkUntilEq_loop.simps) (simp add: Let_def split: prod.splits)

section \<open>Outcomes of the condition poller\<close>

text \<open>
  Claim C8, as amended. Whatever the delays of the caller's function and however late
  the timer fires: \<^verbatim>\<open>checkUntil\<close> returns successfully whenever some poll finds the
  condition true and every poll before it has ended before the timeout elapsed; in
  particular whenever the condition becomes true at a time \<open>d\<close> and stays true, and every
  evaluation started before \<open>d\<close> ends before the timeout has elapsed (without delays:
  whenever \<open>d\<close> is not after the timeout). It fails with the timeout error, returning
  nothing else, whenever the condition is found false at every poll up to and including
  one that ends at or after the timeout. Each poll starts at least 100 milliseconds
  after the one before it has ended, and the elapsed time is measured from the start of
  the call. The call always returns.
\<close>

theorem checkUntil_outcome:
  "((\<forall>k<K. poll_end f late t0 k - t0 < timeout) \<and> fst (f (poll_start f late t0 K)) \<longrightarrow>
      checkUntil f late timeout t0 = Inr ())
   \<and> ((\<forall>t\<ge>d. fst (f t)) \<and> (\<forall>t<d. t + int (snd (f t)) < t0 + timeout) \<longrightarrow>
      checkUntil f late timeout t0 = Inr ())
   \<and> ((\<forall>k\<le>K. \<not> fst (f (poll_start f late t0 k))) \<and> timeout \<le> poll_end f late t0 K - t0 \<longrightarrow>
      checkUntil f late timeout t0 = Inl Timeout)
   \<and> poll_end f late t0 k + 100 \<le> poll_start f late t0 (Suc k)"
proof (intro conjI impI)
  assume a: "(\<forall>k<K. poll_end f late t0 k - t0 < timeout) \<and> fst (f (poll_start f late t0 K))"
  have "checkUntil_loop f late timeout t0 (poll_start f late t0 0) = Inr ()"
    using a by (intro checkUntil_loop_some_true [where K = K]) auto
  then show "checkUntil f late timeout t0 = Inr ()"
    by (simp add: checkUntil_def)
next
  assume "(\<forall>t\<ge>d. fst (f t)) \<and> (\<forall>t<d. t + int (snd (f t)) < t0 + timeout)"
  then show "checkUntil f late timeout t0 = Inr ()"
    unfolding checkUntil_def by (intro checkUntil_loop_true_later [where d = d]) auto
next
  assume a: "(\<forall>k\<le>K. \<not> fst (f (poll_start f late t0 k))) \<and> timeout \<le> poll_end f late t0 K - t0"
  have "checkUntil_loop f late timeout t0 (poll_start f late t0 0) = Inl Timeout"
    using a by (intro checkUntil_loop_all_false [where K = K]) auto
  then show "checkUntil f late timeout t0 = Inl Timeout"
    by (simp add: checkUntil_def)
next
  show "poll_end f late t0 k + 100 \<le> poll_start f late t0 (Suc k)"
    by (simp add: poll_end_def sleep_def)
qed

text \<open>
  The theorem at work, with a function that takes 10 milliseconds to answer, a timer
  that fires 1 millisecond late and a timeout of 150: the polls start at 0, 111 and
  222. A condition true from 120 on is found at the third poll; a condition true only
  from 250 on is false at all three, and the third ends at 232.
\<close>

theorem checkUntil_outcome_witness:
  "poll_end (delayed (flips_at 120) 10) (late_by 1) 0 0 - 0 < 150
   \<and> poll_end (delayed (flips_at 120) 10) (late_by 1) 0 (Suc 0) - 0 < 150
   \<and> fst (delayed (flips_at 120) 10
        (poll_start (delayed (flips_at 120) 10) (late_by 1) 0 (Suc (Suc 0))))
   \<and> (120::int) + int 10 \<le> 0 + 150
   \<and> checkUntil (delayed (flips_at 120) 10) (late_by 1) 150 0 = Inr ()
   \<and> poll_start (delayed (flips_at 250) 10) (late_by 1) 0 (Suc (Suc 0)) = 222
   \<and> (150::int) \<le> poll_end (delayed (flips_at 250) 10) (late_by 1) 0 (Suc (Suc 0)) - 0
   \<and> checkUntil (delayed (flips_at 250) 10) (late_by 1) 150 0 = Inl Timeout
   \<and> poll_end (delayed (flips_at 250) 10) (late_by 1) 0 0 + 100
       \<le> poll_start (delayed (flips_at 250) 10) (late_by 1) 0 (Suc 0)"
proof -
  let ?f = "delayed (flips_at 120) 10" and ?g = "delayed (flips_at 250) 10"
  have fstarts: "poll_start ?f (late_by 1) 0 (Suc 0) = 111"
    "poll_start ?f (late_by 1) 0 (Suc (Suc 0)) = 222"
    by (simp_all add: delayed_def sleep_def late_by_def)
  have h0: "(\<forall>k<Suc (Suc 0). poll_end ?f (late_by 1) 0 k - 0 < 150)
      \<and> fst (?f (poll_start ?f (late_by 1) 0 (Suc (Suc 0))))"
  proof (intro conjI allI impI)
    fix k :: nat assume "k < Suc (Suc 0)"
    then consider "k = 0" | "k = Suc 0"
      by linarith
    then show "poll_end ?f (late_by 1) 0 k - 0 < 150"
      using fstarts by cases (simp_all add: poll_end_def delayed_def)
  next
    show "fst (?f (poll_start ?f (late_by 1) 0 (Suc (Suc 0))))"
      using fstarts by (simp add: delayed_def flips_at_def)
  qed
  have h1: "(\<forall>t\<ge>120. fst (?f t)) \<and> (\<forall>t<120. t + int (snd (?f t)) < 0 + 150)"
    by (simp add: delayed_def flips_at_def)
  have starts: "poll_start ?g (late_by 1) 0 (Suc 0) = 111"
    "poll_start ?g (late_by 1) 0 (Suc (Suc 0)) = 222"
    by (simp_all add: delayed_def sleep_def late_by_def)
  have h2: "(\<forall>k\<le>Suc (Suc 0). \<not> fst (?g (poll_start ?g (late_by 1) 0 k)))
      \<and> 150 \<le> poll_end ?g (late_by 1) 0 (Suc (Suc 0)) - 0"
  proof (intro conjI allI impI)
    fix k :: nat assume "k \<le> Suc (Suc 0)"
    then consider "k = 0" | "k = Suc 0" | "k = Suc (Suc 0)"
      by linarith
    then show "\<not> fst (?g (poll_start ?g (late_by 1) 0 k))"
      using starts by cases (simp_all add: delayed_def flips_at_def)
  next
    show "150 \<le> poll_end ?g (late_by 1) 0 (Suc (Suc 0)) - 0"
      using starts by (simp add: poll_end_def delayed_def)
  qed
  have ends: "poll_end ?f (late_by 1) 0 0 - 0 < 150"
    "poll_end ?f (late_by 1) 0 (Suc 0) - 0 < 150"
    using fstarts by (simp_all add: poll_end_def delayed_def)
  show ?thesis
    using checkUntil_outcome [where f = ?f and K = "Suc (Suc 0)" and ?t0.0 = 0
        and timeout = 150 and late = "late_by 1", THEN conjunct1, THEN mp, OF h0]
      checkUntil_outcome [where f = ?f and d = 120 and ?t0.0 = 0
        and timeout = 150 and late = "late_by 1",
        THEN conjunct2, THEN conjunct1, THEN mp, OF h1]
      checkUntil_outcome [where f = ?g and K = "Suc (Suc 0)"
        and ?t0.0 = 0 and timeout = 150 and late = "late_by 1",
        THEN conjunct2, THEN conjunct2, THEN conjunct1, THEN mp, OF h2]
      checkUntil_outcome [where f = ?g and k = 0
        and ?t0.0 = 0 and late = "late_by 1", THEN conjunct2, THEN conjunct2, THEN conjunct2]
      h0 h2 starts ends
    by simp
qed

text \<open>
  Claim C8 as it is written fails in both halves. A condition that is false during the
  whole 150 milliseconds of the timeout and true from 180 on is found true by the poll
  at 200, which the loop makes because it compares the elapsed time only after a poll
  that failed: the call succeeds. And a condition that is true from 60 on, before a
  timeout of 100, read at time 0 by a function that takes 150 milliseconds to answer,
  gives the timeout error after one round. In both the timer is on time.
\<close>

theorem checkUntil_misses_deadline:
  "\<not> flips_at 180 0 \<and> \<not> flips_at 180 150
   \<and> checkUntil (instant (flips_at 180)) on_time 150 0 = Inr ()
   \<and> flips_at 60 60 \<and> (60::int) < 0 + 100
   \<and> checkUntil (delayed (flips_at 60) 150) on_time 100 0 = Inl Timeout"
  by (simp add: checkUntil_def checkUntil_loop_step instant_def delayed_def flips_at_def
      sleep_def on_time_def)

text \<open>
  Claim C10. \<^verbatim>\<open>checkUntil\<close> and \<^verbatim>\<open>checkUntilEq\<close> evaluate the caller's function before they
  compare the elapsed time with the timeout, and the first evaluation decides: when the
  condition holds at the first evaluation, the call succeeds, for every timeout, zero
  and negative ones included, and \<^verbatim>\<open>checkUntilEq\<close> has printed nothing; when it does not
  hold and the timeout is at most the time the evaluation took (so for every timeout
  that is zero or negative), the call fails with the timeout error, and \<^verbatim>\<open>checkUntilEq\<close>
  has printed the value once if it is verbose.
\<close>

theorem first_poll_decides:
  "(fst (async_fn now) \<longrightarrow> checkUntil async_fn late timeout now = Inr ())
   \<and> (\<not> fst (async_fn now) \<and> timeout \<le> int (snd (async_fn now)) \<longrightarrow>
        checkUntil async_fn late timeout now = Inl Timeout)
   \<and> (fst (value_fn now) = expected \<longrightarrow>
        checkUntilEq value_fn late expected timeout verbose now = (Inr (), []))
   \<and> (fst (value_fn now) \<noteq> expected \<and> timeout \<le> int (snd (value_fn now)) \<longrightarrow>
        checkUntilEq value_fn late expected timeout verbose now
          = (Inl Timeout, if verbose then [(fst (value_fn now), expected)] else []))"
proof (intro conjI impI)
  assume "fst (async_fn now)"
  then show "checkUntil async_fn late timeout now = Inr ()"
    unfolding checkUntil_def by (subst checkUntil_loop_step) simp
next
  assume "\<not> fst (async_fn now) \<and> timeout \<le> int (snd (async_fn now))"
  then show "checkUntil async_fn late timeout now = Inl Timeout"
    unfolding checkUntil_def by (subst checkUntil_loop_step) simp
next
  assume "fst (value_fn now) = expected"
  then show "checkUntilEq value_fn late expected timeout verbose now = (Inr (), [])"
    unfolding checkUntilEq_def by (subst checkUntilEq_loop_step) simp
next
  assume "fst (value_fn now) \<noteq> expected \<and> timeout \<le> int (snd (value_fn now))"
  then show "checkUntilEq value_fn late expected timeout verbose now
          = (Inl Timeout, if verbose then [(fst (value_fn now), expected)] else [])"
    unfolding checkUntilEq_def by (subst checkUntilEq_loop_step) simp
qed


theorem first_poll_decides_witness:
  "fst (instant (flips_at 0) 5)
   \<and> checkUntil (instant (flips_at 0)) on_time (- 7) 5 = Inr ()
   \<and> checkUntil (instant (flips_at 0)) on_time 0 5 = Inr ()
   \<and> \<not> fst (delayed (flips_at 9) 3 5) \<and> (0::int) \<le> int (snd (delayed (flips_at 9) 3 5))
   \<and> checkUntil (delayed (flips_at 9) 3) on_time 0 5 = Inl Timeout
   \<and> fst (answers (1::nat) 3 5) = 1
   \<and> checkUntilEq (answers (1::nat) 3) on_time 1 (- 7) True 5 = (Inr (), [])
   \<and> checkUntilEq (answers (1::nat) 3) on_time 1 0 True 5 = (Inr (), [])
   \<and> fst (answers (1::nat) 3 5) \<noteq> 2
   \<and> checkUntilEq (answers (1::nat) 3) on_time 2 0 True 5 = (Inl Timeout, [(1, 2)])"
  using first_poll_decides [where async_fn = "instant (flips_at 0)" and now = 5
      and late = on_time and timeout = "- 7" and value_fn = "answers (1::nat) 3"
      and expected = 1 and verbose = True]
    first_poll_decides [where async_fn = "instant (flips_at 0)" and now = 5
      and late = on_time and timeout = 0 and value_fn = "answers (1::nat) 3"
      and expected = 1 and verbose = True]
    first_poll_decides [where async_fn = "delayed (flips_at 9) 3" and now = 5
      and late = on_time and timeout = 0 and value_fn = "answers (1::nat) 3"
      and expected = 2 and verbose = True]
  by (simp add: instant_def delayed_def flips_at_def answers_def)


end
